theory Spec2Isabelle
  imports Main "HOL-Library.AList"
begin

section \<open>Proxy generation over a store: mutation and getter wrappers\<close>

text \<open>
  The development embeds \<^verbatim>\<open>wrapMutations\<close> and \<^verbatim>\<open>wrapGetters\<close> of
  \<^verbatim>\<open>src/mutations.ts\<close>. Both build an object by \<^verbatim>\<open>Object.defineProperty\<close>
  with a \<^verbatim>\<open>get\<close> function only, from the entries of a handler map. The closures they
  install capture a reference to the store; here the store is an explicit state that each
  closure takes when it runs and, where it changes the store, returns updated.
\<close>

subsection \<open>Errors, handlers, commit options\<close>

text \<open>
  The source raises nothing by itself. Two exceptions can leave it: the one of
  \<^verbatim>\<open>qualifyKey\<close> for a handler without a name, and the \<^verbatim>\<open>TypeError\<close> of the
  runtime, which \<^verbatim>\<open>Object.defineProperty\<close> throws when it redefines a property that is
  not configurable and which a strict-mode assignment throws on a property that has a getter
  and no setter.
\<close>

datatype error = InvalidHandlerIdentity | TypeError

text \<open>
  The wrappers never call a raw handler: all they use of it is what \<^verbatim>\<open>qualifyKey\<close>
  reads, its declared name (\<^verbatim>\<open>Function.name\<close>, the empty string for an anonymous
  function).
\<close>

datatype handler = Handler (declared_name: string)

record commit_options =
  root :: bool

subsection \<open>Key qualification\<close>

text \<open>
  Modelled from the spec: \<^verbatim>\<open>qualifyKey\<close> is imported from \<^verbatim>\<open>./util\<close>, a file of the
  repository that is not among the sources. Section 4.1 of the specification: it returns
  the identifier unchanged when the namespace is empty, and otherwise the namespace, a
  slash and the identifier.
\<close>

definition qualify :: "string \<Rightarrow> string \<Rightarrow> string" where
  "qualify identifier namespace =
     (if namespace = [] then identifier else namespace @ ''/'' @ identifier)"

text \<open>
  Modelled from the spec: the call \<^verbatim>\<open>qualifyKey(handler, namespace)\<close> of the source
  takes the handler itself. Section 4.1 of the specification: it fails with
  \<^verbatim>\<open>InvalidHandlerIdentity\<close> if no identifier can be derived for the handler (an
  anonymous handler with no name); the identifier of a handler is its declared name
  (section 3).
\<close>

definition qualifyKey :: "handler \<Rightarrow> string \<Rightarrow> error + string" where
  "qualifyKey h namespace =
     (if declared_name h = [] then Inl InvalidHandlerIdentity
      else Inr (qualify (declared_name h) namespace))"

subsection \<open>The store\<close>

text \<open>
  Modelled from the spec: the store is the \<^verbatim>\<open>Store\<close> of the vuex package, an external
  collaborator. Section 6 of the specification gives its contract: \<^verbatim>\<open>commit\<close>
  dispatches the operation identified by a key, \<^verbatim>\<open>subscribe\<close> registers a global
  listener that is invoked synchronously on every commit and returns a disposer that
  removes exactly that subscription, and \<^verbatim>\<open>getters\<close> is a live mapping from a
  qualified key to the current derived value.

  The state records what the claims observe: the commit calls the store has received
  (oldest first), the subscription list, the registry of getters, and the invocations of
  listener callbacks. A listener is user code; it is identified by a value of type \<open>'l\<close>,
  and running it with a payload is recorded in \<open>invocations\<close>. A subscriber is the
  callback passed to \<^verbatim>\<open>subscribe\<close>: given the event \<^verbatim>\<open>{type, payload}\<close> it yields the
  listener invocations it performs. A subscription is identified by a number, which is
  the disposer that \<^verbatim>\<open>subscribe\<close> returns.
\<close>

type_synonym ('p, 'l) subscriber = "string \<times> 'p \<Rightarrow> ('l \<times> 'p) list"

record ('p, 'l) store =
  commits :: "(string \<times> 'p \<times> commit_options option) list"
  subscribers :: "(nat \<times> ('p, 'l) subscriber) list"
  next_id :: nat
  getters :: "string \<rightharpoonup> 'p"
  invocations :: "('l \<times> 'p) list"

definition store_commit ::
  "string \<Rightarrow> 'p \<Rightarrow> commit_options option \<Rightarrow> ('p, 'l) store \<Rightarrow> ('p, 'l) store" where
  "store_commit type payload options s =
     s\<lparr>commits := commits s @ [(type, payload, options)],
       invocations :=
         invocations s @ concat (map (\<lambda>(i, sub). sub (type, payload)) (subscribers s))\<rparr>"

definition store_subscribe ::
  "('p, 'l) subscriber \<Rightarrow> ('p, 'l) store \<Rightarrow> nat \<times> ('p, 'l) store" where
  "store_subscribe sub s =
     (next_id s,
      s\<lparr>subscribers := subscribers s @ [(next_id s, sub)], next_id := Suc (next_id s)\<rparr>)"

definition dispose :: "nat \<Rightarrow> ('p, 'l) store \<Rightarrow> ('p, 'l) store" where
  "dispose d s = s\<lparr>subscribers := filter (\<lambda>(i, sub). i \<noteq> d) (subscribers s)\<rparr>"

text \<open>
  A history of calls on the store, as any code that holds the store can make them:
  \<^verbatim>\<open>commit\<close>, \<^verbatim>\<open>subscribe\<close> (the \<^verbatim>\<open>listen\<close> of an accessor is one), and the call of
  a disposer. \<open>run\<close> performs the calls of a history in order.
\<close>

datatype ('p, 'l) operation =
    Commit string 'p "commit_options option"
  | Subscribe "('p, 'l) subscriber"
  | Dispose nat

fun perform :: "('p, 'l) operation \<Rightarrow> ('p, 'l) store \<Rightarrow> ('p, 'l) store" where
  "perform (Commit type payload options) s = store_commit type payload options s"
| "perform (Subscribe sub) s = snd (store_subscribe sub s)"
| "perform (Dispose d) s = dispose d s"

definition run :: "('p, 'l) operation list \<Rightarrow> ('p, 'l) store \<Rightarrow> ('p, 'l) store" where
  "run ops s = fold perform ops s"

text \<open>The payloads with which a listener has been invoked, oldest first.\<close>

definition calls_of :: "'l \<Rightarrow> ('p, 'l) store \<Rightarrow> 'p list" where
  "calls_of L s = map snd (filter (\<lambda>(l, p). l = L) (invocations s))"

subsection \<open>Objects with accessor properties\<close>

text \<open>
  \<^verbatim>\<open>Object.defineProperty(obj, key, { get() {...} })\<close> installs an accessor property
  that has a getter, no setter, and is neither configurable nor enumerable. An object is
  its list of own properties; a property is such an accessor (its getter) or a data
  property (its value), which is what a successful assignment creates. Defining a
  property over an accessor installed this way throws \<^verbatim>\<open>TypeError\<close>, since the
  existing property is not configurable and the new getter is another function.
\<close>

datatype ('g, 'v) property = Accessor 'g | Data 'v

type_synonym ('g, 'v) object = "(string \<times> ('g, 'v) property) list"

definition defineProperty ::
  "('g, 'v) object \<Rightarrow> string \<Rightarrow> 'g \<Rightarrow> error + ('g, 'v) object" where
  "defineProperty obj key getter =
     (case map_of obj key of
        Some (Accessor g) \<Rightarrow> Inl TypeError
      | _ \<Rightarrow> Inr (AList.update key (Accessor getter) obj))"

text \<open>
  The assignment \<^verbatim>\<open>obj[key] = v\<close>. On an accessor without a setter the runtime
  throws \<^verbatim>\<open>TypeError\<close> when the assigning code is in strict mode, and otherwise does
  nothing; on any other key it stores a data property.
\<close>

definition assign ::
  "bool \<Rightarrow> ('g, 'v) object \<Rightarrow> string \<Rightarrow> 'v \<Rightarrow> error + ('g, 'v) object" where
  "assign strict obj key v =
     (case map_of obj key of
        Some (Accessor g) \<Rightarrow> (if strict then Inl TypeError else Inr obj)
      | _ \<Rightarrow> Inr (AList.update key (Data v) obj))"

text \<open>
  \<^verbatim>\<open>Array.prototype.reduce\<close> and the \<^verbatim>\<open>for ... of\<close> loop over the entries of the
  handler map: the callback runs on each entry in order, and an exception thrown by it
  ends the loop. A handler map is the list that \<^verbatim>\<open>Object.entries\<close> makes of it.
  \<^verbatim>\<open>Object.entries\<close> yields every key once; the functions below are defined on any
  list, and on a list that repeats a key they end with the \<^verbatim>\<open>TypeError\<close> of
  \<^verbatim>\<open>defineProperty\<close>.
\<close>

fun reduce :: "('a \<Rightarrow> 'b \<Rightarrow> error + 'a) \<Rightarrow> 'b list \<Rightarrow> 'a \<Rightarrow> error + 'a" where
  "reduce f [] acc = Inr acc"
| "reduce f (x # xs) acc =
     (case f acc x of Inl e \<Rightarrow> Inl e | Inr acc' \<Rightarrow> reduce f xs acc')"

subsection \<open>wrapMutations\<close>

text \<open>
  A wrapped mutation accessor is the function \<^verbatim>\<open>deferred\<close> with its property
  \<^verbatim>\<open>listen\<close>. The combined committer is the function passed to \<^verbatim>\<open>reduce\<close> as the
  initial value (\<open>call\<close>, what invoking it does) with the properties defined on it.
\<close>

record ('p, 'l) deferred =
  invoke :: "'p \<Rightarrow> ('p, 'l) store \<Rightarrow> ('p, 'l) store"
  listen :: "'l \<Rightarrow> ('p, 'l) store \<Rightarrow> nat \<times> ('p, 'l) store"

record ('p, 'l) committer =
  call :: "string \<Rightarrow> 'p \<Rightarrow> commit_options option \<Rightarrow> ('p, 'l) store \<Rightarrow> ('p, 'l) store"
  props :: "(('p, 'l) deferred, 'p) object"

text \<open>
  Lines 101 to 111: \<^verbatim>\<open>deferred\<close> calls the accumulator \<^verbatim>\<open>commit\<close> with the
  qualified key, the payload and \<^verbatim>\<open>{ root: true }\<close>; \<^verbatim>\<open>deferred.listen\<close> subscribes
  a callback that calls the handler with the payload when the type of the event is the
  qualified key.
\<close>

definition mk_deferred :: "('p, 'l) committer \<Rightarrow> string \<Rightarrow> ('p, 'l) deferred" where
  "mk_deferred commit mutationKey =
     \<lparr>invoke = (\<lambda>payload. call commit mutationKey payload (Some \<lparr>root = True\<rparr>)),
      listen = (\<lambda>handler.
        store_subscribe
          (\<lambda>(type, payload). if type = mutationKey then [(handler, payload)] else []))\<rparr>"

text \<open>Lines 92 to 118: the callback of \<^verbatim>\<open>reduce\<close>.\<close>

definition wrapMutation ::
  "string \<Rightarrow> ('p, 'l) committer \<Rightarrow> string \<times> handler \<Rightarrow> error + ('p, 'l) committer" where
  "wrapMutation namespace commit entry =
     (case entry of (key, mutation) \<Rightarrow>
        (case qualifyKey mutation namespace of
           Inl e \<Rightarrow> Inl e
         | Inr mutationKey \<Rightarrow>
             (case defineProperty (props commit) key (mk_deferred commit mutationKey) of
                Inl e \<Rightarrow> Inl e
              | Inr ps \<Rightarrow> Inr (commit\<lparr>props := ps\<rparr>))))"

text \<open>
  Lines 91 to 122. The initial value is the arrow function that passes its arguments to
  \<^verbatim>\<open>store.commit\<close>; its own properties \<^verbatim>\<open>name\<close> and \<^verbatim>\<open>length\<close> are
  configurable, so that \<^verbatim>\<open>defineProperty\<close> replaces them as it adds any other key, and
  are left out.
\<close>

definition wrapMutations ::
  "string \<Rightarrow> (string \<times> handler) list \<Rightarrow> error + ('p, 'l) committer" where
  "wrapMutations namespace mutations =
     reduce (wrapMutation namespace) mutations \<lparr>call = store_commit, props = []\<rparr>"

text \<open>Reading the property \<open>key\<close> of the committer: the getter returns \<^verbatim>\<open>deferred\<close>.\<close>

definition accessor :: "('p, 'l) committer \<Rightarrow> string \<Rightarrow> ('p, 'l) deferred option" where
  "accessor w key = (case map_of (props w) key of Some (Accessor d) \<Rightarrow> Some d | _ \<Rightarrow> None)"

subsection \<open>wrapGetters\<close>

text \<open>
  Lines 234 to 244. The getter installed for an entry reads
  \<^verbatim>\<open>store.getters[qualifyKey(getter, namespace)]\<close> when the property is read; a key
  that the registry does not have reads as \<^verbatim>\<open>undefined\<close>, which is \<open>None\<close>.
\<close>

type_synonym ('p, 'l) wrapped_getters =
  "(('p, 'l) store \<Rightarrow> error + 'p option, 'p) object"

definition wrapGetters ::
  "(string \<times> handler) list \<Rightarrow> string \<Rightarrow> error + ('p, 'l) wrapped_getters" where
  "wrapGetters getter_map namespace =
     reduce
       (\<lambda>result (key, getter).
          defineProperty result key
            (\<lambda>s. case qualifyKey getter namespace of
                   Inl e \<Rightarrow> Inl e
                 | Inr k \<Rightarrow> Inr (getters s k)))
       getter_map []"

text \<open>
  Reading the property \<open>key\<close> of the wrapped getters in the store state \<open>s\<close>: an
  accessor runs its getter, and a key that the object does not have reads as
  \<^verbatim>\<open>undefined\<close>.
\<close>

definition read :: "('p, 'l) wrapped_getters \<Rightarrow> string \<Rightarrow> ('p, 'l) store \<Rightarrow> error + 'p option" where
  "read obj key s =
     (case map_of obj key of
        None \<Rightarrow> Inr None
      | Some (Accessor g) \<Rightarrow> g s
      | Some (Data v) \<Rightarrow> Inr (Some v))"

subsection \<open>A store and handler maps to run the wrappers on\<close>

definition empty_store :: "(nat, nat) store" where
  "empty_store =
     \<lparr>commits = [], subscribers = [], next_id = 0, getters = Map.empty, invocations = []\<rparr>"

text \<open>
  A store that already has a subscriber: it invokes the listener \<open>3\<close> with the payload
  of every commit.
\<close>

definition watched_store :: "(nat, nat) store" where
  "watched_store =
     \<lparr>commits = [], subscribers = [(0, \<lambda>(type, payload). [(3, payload)])], next_id = 1,
      getters = Map.empty, invocations = []\<rparr>"

text \<open>
  A history in which another listener subscribes to another key, a commit happens, the
  first subscription is disposed of, and the listener \<open>7\<close> subscribes once more to
  \<^verbatim>\<open>cart/addItem\<close>.
\<close>

definition later_calls :: "(nat, nat) operation list" where
  "later_calls =
     [Subscribe (\<lambda>(type, payload). if type = ''cart/removeItem'' then [(3, payload)] else []),
      Commit ''cart/addItem'' 1 (Some \<lparr>root = True\<rparr>),
      Dispose 0,
      Subscribe (\<lambda>(type, payload). if type = ''cart/addItem'' then [(7, payload)] else [])]"

text \<open>
  The scenarios of the specification: the namespace \<^verbatim>\<open>cart\<close> with one mutation
  handler, and one getter without a namespace.
\<close>

definition cart_handlers :: "(string \<times> handler) list" where
  "cart_handlers = [(''addItem'', Handler ''addItem'')]"

definition total_getters :: "(string \<times> handler) list" where
  "total_getters = [(''total'', Handler ''total'')]"

text \<open>
  A handler without a name, as \<^verbatim>\<open>handlers.total = (state) => state.sum\<close> leaves it
  (an assignment to a member gives the function no name).
\<close>

definition anonymous_handlers :: "(string \<times> handler) list" where
  "anonymous_handlers = [(''total'', Handler [])]"

text \<open>
  The same function under two keys, as in \<^verbatim>\<open>{ first: set, second: set }\<close>, and a
  function under a key that is not its name, as in \<^verbatim>\<open>{ add: addItem }\<close>.
\<close>

definition twin_handlers :: "(string \<times> handler) list" where
  "twin_handlers = [(''first'', Handler ''set''), (''second'', Handler ''set'')]"

definition renamed_handlers :: "(string \<times> handler) list" where
  "renamed_handlers = [(''add'', Handler ''addItem'')]"

section \<open>Properties\<close>

subsection \<open>What a successful step of the loops establishes\<close>

lemma defineProperty_Inr:
  assumes "defineProperty obj key g = Inr obj'"
  shows "map_of obj' = (map_of obj)(key \<mapsto> Accessor g)"
    and "map_of obj key \<noteq> Some (Accessor g')"
  using assms
  by (auto simp: defineProperty_def update_conv' split: option.splits property.splits)

lemma defineProperty_ok:
  "(\<And>g'. map_of obj key \<noteq> Some (Accessor g')) \<Longrightarrow>
     defineProperty obj key g = Inr (AList.update key (Accessor g) obj)"
  by (auto simp: defineProperty_def split: option.splits property.splits)

lemma mk_deferred_call: "call c = call c' \<Longrightarrow> mk_deferred c k = mk_deferred c' k"
  by (simp add: mk_deferred_def)

lemma wrapMutation_Inr:
  assumes "wrapMutation ns acc (key, h) = Inr acc'"
  shows "call acc' = call acc"
    and "declared_name h \<noteq> []"
    and "map_of (props acc') =
           (map_of (props acc))(key \<mapsto> Accessor (mk_deferred acc (qualify (declared_name h) ns)))"
    and "map_of (props acc) key \<noteq> Some (Accessor g')"
  using assms
  by (auto simp: wrapMutation_def qualifyKey_def 
      split: sum.splits if_splits dest: defineProperty_Inr)

lemma reduce_wrapMutation_call:
  "reduce (wrapMutation ns) ms acc = Inr w \<Longrightarrow> call w = call acc"
proof (induction ms arbitrary: acc)
  case Nil
  then show ?case by simp
next
  case (Cons m ms)
  obtain key h where m: "m = (key, h)" by (cases m)
  from Cons.prems obtain acc' where
    step: "wrapMutation ns acc (key, h) = Inr acc'" and rest: "reduce (wrapMutation ns) ms acc' = Inr w"
    by (auto simp: m split: sum.splits)
  from Cons.IH [OF rest] wrapMutation_Inr(1) [OF step] show ?case by simp
qed

lemma reduce_wrapMutation_fresh:
  "reduce (wrapMutation ns) ms acc = Inr w \<Longrightarrow> map_of (props acc) k = Some (Accessor g) \<Longrightarrow>
     map_of ms k = None"
proof (induction ms arbitrary: acc)
  case Nil
  then show ?case by simp
next
  case (Cons m ms)
  obtain key h where m: "m = (key, h)" by (cases m)
  from Cons.prems(1) obtain acc' where
    step: "wrapMutation ns acc (key, h) = Inr acc'" and rest: "reduce (wrapMutation ns) ms acc' = Inr w"
    by (auto simp: m split: sum.splits)
  from wrapMutation_Inr(4) [OF step] Cons.prems(2) have ne: "k \<noteq> key" by auto
  with wrapMutation_Inr(3) [OF step] Cons.prems(2)
  have "map_of (props acc') k = Some (Accessor g)" by simp
  from Cons.IH [OF rest this] ne show ?case by (simp add: m)
qed

lemma reduce_wrapMutation_props:
  "reduce (wrapMutation ns) ms acc = Inr w \<Longrightarrow>
     map_of (props w) k =
       (case map_of ms k of
          Some h \<Rightarrow> Some (Accessor (mk_deferred acc (qualify (declared_name h) ns)))
        | None \<Rightarrow> map_of (props acc) k)"
proof (induction ms arbitrary: acc)
  case Nil
  then show ?case by simp
next
  case (Cons m ms)
  obtain key h where m: "m = (key, h)" by (cases m)
  from Cons.prems(1) obtain acc' where
    step: "wrapMutation ns acc (key, h) = Inr acc'" and rest: "reduce (wrapMutation ns) ms acc' = Inr w"
    by (auto simp: m split: sum.splits)
  note s = wrapMutation_Inr [OF step]
  have d: "mk_deferred acc' K = mk_deferred acc K" for K
    using s(1) by (rule mk_deferred_call)
  show ?case
  proof (cases "k = key")
    case True
    with s(3) have "map_of (props acc') k = Some (Accessor (mk_deferred acc (qualify (declared_name h) ns)))"
      by simp
    from reduce_wrapMutation_fresh [OF rest this] this Cons.IH [OF rest] True
    show ?thesis by (simp add: m split: option.splits)
  next
    case False
    with s(3) have "map_of (props acc') k = map_of (props acc) k" by simp
    with Cons.IH [OF rest] False show ?thesis by (simp add: m d split: option.splits)
  qed
qed

lemma reduce_wrapMutation_named:
  "reduce (wrapMutation ns) ms acc = Inr w \<Longrightarrow> (k, h) \<in> set ms \<Longrightarrow> declared_name h \<noteq> []"
proof (induction ms arbitrary: acc)
  case Nil
  then show ?case by simp
next
  case (Cons m ms)
  obtain key h' where m: "m = (key, h')" by (cases m)
  from Cons.prems(1) obtain acc' where
    step: "wrapMutation ns acc (key, h') = Inr acc'" and rest: "reduce (wrapMutation ns) ms acc' = Inr w"
    by (auto simp: m split: sum.splits)
  from Cons.prems(2) Cons.IH [OF rest] wrapMutation_Inr(2) [OF step] show ?case
    by (auto simp: m)
qed

lemma reduce_wrapMutation_distinct:
  "reduce (wrapMutation ns) ms acc = Inr w \<Longrightarrow> distinct (map fst ms)"
proof (induction ms arbitrary: acc)
  case Nil
  then show ?case by simp
next
  case (Cons m ms)
  obtain key h where m: "m = (key, h)" by (cases m)
  from Cons.prems(1) obtain acc' where
    step: "wrapMutation ns acc (key, h) = Inr acc'" and rest: "reduce (wrapMutation ns) ms acc' = Inr w"
    by (auto simp: m split: sum.splits)
  from wrapMutation_Inr(3) [OF step]
  have "map_of (props acc') key = Some (Accessor (mk_deferred acc (qualify (declared_name h) ns)))"
    by simp
  from reduce_wrapMutation_fresh [OF rest this] have "key \<notin> fst ` set ms"
    by (simp add: map_of_eq_None_iff)
  with Cons.IH [OF rest] show ?case by (simp add: m)
qed

lemma reduce_wrapMutation_total:
  "distinct (map fst ms) \<Longrightarrow> (\<forall>(k, h) \<in> set ms. declared_name h \<noteq> []) \<Longrightarrow>
   (\<forall>k \<in> fst ` set ms. \<forall>g. map_of (props acc) k \<noteq> Some (Accessor g)) \<Longrightarrow>
     \<exists>w. reduce (wrapMutation ns) ms acc = Inr w"
proof (induction ms arbitrary: acc)
  case Nil
  then show ?case by simp
next
  case (Cons m ms)
  obtain key h where m: "m = (key, h)" by (cases m)
  let ?d = "mk_deferred acc (qualify (declared_name h) ns)"
  let ?acc = "acc\<lparr>props := AList.update key (Accessor ?d) (props acc)\<rparr>"
  from Cons.prems have step: "wrapMutation ns acc (key, h) = Inr ?acc"
    by (simp add: m wrapMutation_def qualifyKey_def defineProperty_ok)
  have "\<forall>k \<in> fst ` set ms. \<forall>g. map_of (props ?acc) k \<noteq> Some (Accessor g)"
    using Cons.prems(1,3) by (auto simp: m update_conv')
  with Cons.IH [of ?acc] Cons.prems(1,2) obtain w where "reduce (wrapMutation ns) ms ?acc = Inr w"
    by auto
  with step show ?case by (simp add: m)
qed

subsection \<open>The loop of wrapGetters\<close>

lemma reduce_define_fresh:
  "reduce (\<lambda>result (key, getter). defineProperty result key (G getter)) ms acc = Inr obj \<Longrightarrow>
   map_of acc k = Some (Accessor g) \<Longrightarrow> map_of ms k = None"
proof (induction ms arbitrary: acc)
  case Nil
  then show ?case by simp
next
  case (Cons m ms)
  obtain key h where m: "m = (key, h)" by (cases m)
  from Cons.prems(1) obtain acc' where
    step: "defineProperty acc key (G h) = Inr acc'" and
    rest: "reduce (\<lambda>result (key, getter). defineProperty result key (G getter)) ms acc' = Inr obj"
    by (auto simp: m split: sum.splits)
  from defineProperty_Inr(2) [OF step] Cons.prems(2) have ne: "k \<noteq> key" by auto
  with defineProperty_Inr(1) [OF step] Cons.prems(2)
  have "map_of acc' k = Some (Accessor g)" by simp
  from Cons.IH [OF rest this] ne show ?case by (simp add: m)
qed

lemma reduce_define_props:
  "reduce (\<lambda>result (key, getter). defineProperty result key (G getter)) ms acc = Inr obj \<Longrightarrow>
   map_of obj k =
     (case map_of ms k of Some h \<Rightarrow> Some (Accessor (G h)) | None \<Rightarrow> map_of acc k)"
proof (induction ms arbitrary: acc)
  case Nil
  then show ?case by simp
next
  case (Cons m ms)
  obtain key h where m: "m = (key, h)" by (cases m)
  from Cons.prems(1) obtain acc' where
    step: "defineProperty acc key (G h) = Inr acc'" and
    rest: "reduce (\<lambda>result (key, getter). defineProperty result key (G getter)) ms acc' = Inr obj"
    by (auto simp: m split: sum.splits)
  note s = defineProperty_Inr(1) [OF step]
  show ?case
  proof (cases "k = key")
    case True
    with s have "map_of acc' k = Some (Accessor (G h))" by simp
    from reduce_define_fresh [OF rest this] this Cons.IH [OF rest] True
    show ?thesis by (simp add: m split: option.splits)
  next
    case False
    with s have "map_of acc' k = map_of acc k" by simp
    with Cons.IH [OF rest] False show ?thesis by (simp add: m split: option.splits)
  qed
qed

lemma reduce_define_distinct:
  "reduce (\<lambda>result (key, getter). defineProperty result key (G getter)) ms acc = Inr obj \<Longrightarrow>
   distinct (map fst ms)"
proof (induction ms arbitrary: acc)
  case Nil
  then show ?case by simp
next
  case (Cons m ms)
  obtain key h where m: "m = (key, h)" by (cases m)
  from Cons.prems(1) obtain acc' where
    step: "defineProperty acc key (G h) = Inr acc'" and
    rest: "reduce (\<lambda>result (key, getter). defineProperty result key (G getter)) ms acc' = Inr obj"
    by (auto simp: m split: sum.splits)
  from defineProperty_Inr(1) [OF step] have "map_of acc' key = Some (Accessor (G h))"
    by simp
  from reduce_define_fresh [OF rest this] have "key \<notin> fst ` set ms"
    by (simp add: map_of_eq_None_iff)
  with Cons.IH [OF rest] show ?case by (simp add: m)
qed

lemma reduce_define_total:
  "distinct (map fst ms) \<Longrightarrow>
   (\<forall>k \<in> fst ` set ms. \<forall>g. map_of acc k \<noteq> Some (Accessor g)) \<Longrightarrow>
   \<exists>obj. reduce (\<lambda>result (key, getter). defineProperty result key (G getter)) ms acc = Inr obj"
proof (induction ms arbitrary: acc)
  case Nil
  then show ?case by simp
next
  case (Cons m ms)
  obtain key h where m: "m = (key, h)" by (cases m)
  let ?acc = "AList.update key (Accessor (G h)) acc"
  from Cons.prems have step: "defineProperty acc key (G h) = Inr ?acc"
    by (simp add: m defineProperty_ok)
  have "\<forall>k \<in> fst ` set ms. \<forall>g. map_of ?acc k \<noteq> Some (Accessor g)"
    using Cons.prems by (auto simp: m update_conv')
  with Cons.IH [of ?acc] Cons.prems(1) obtain obj where
    "reduce (\<lambda>result (key, getter). defineProperty result key (G getter)) ms ?acc = Inr obj"
    by auto
  with step show ?case by (simp add: m)
qed

subsection \<open>The objects the wrap calls return\<close>

lemma accessor_wrapMutations:
  assumes "wrapMutations N H = Inr w" and "(k, h) \<in> set H"
  shows "accessor w k =
    Some (mk_deferred \<lparr>call = store_commit, props = []\<rparr> (qualify (declared_name h) N))"
proof -
  from assms(1) have r: "reduce (wrapMutation N) H \<lparr>call = store_commit, props = []\<rparr> = Inr w"
    by (simp add: wrapMutations_def)
  from reduce_wrapMutation_distinct [OF r] assms(2) have "map_of H k = Some h"
    by simp
  with reduce_wrapMutation_props [OF r, of k] show ?thesis
    by (simp add: accessor_def)
qed

lemma accessor_wrapMutations_dom:
  assumes "wrapMutations N H = Inr w"
  shows "dom (accessor w) = fst ` set H"
proof -
  from assms(1) have r: "reduce (wrapMutation N) H \<lparr>call = store_commit, props = []\<rparr> = Inr w"
    by (simp add: wrapMutations_def)
  have "accessor w k \<noteq> None \<longleftrightarrow> map_of H k \<noteq> None" for k
    using reduce_wrapMutation_props [OF r, of k]
    by (auto simp: accessor_def split: option.splits)
  then show ?thesis
    by (auto simp: dom_def map_of_eq_None_iff)
qed

lemma invoke_mk_deferred:
  "invoke (mk_deferred \<lparr>call = store_commit, props = []\<rparr> K) payload s =
     store_commit K payload (Some \<lparr>root = True\<rparr>) s"
  by (simp add: mk_deferred_def)

lemma commits_store_commit:
  "commits (store_commit type payload options s) = commits s @ [(type, payload, options)]"
  by (simp add: store_commit_def)

lemma wrapMutations_call:
  "wrapMutations N H = Inr w \<Longrightarrow> call w = store_commit"
  using reduce_wrapMutation_call [of N H "\<lparr>call = store_commit, props = []\<rparr>" w]
  by (simp add: wrapMutations_def)

lemma read_wrapGetters:
  assumes "wrapGetters G N = Inr obj" and "(k, h) \<in> set G"
  shows "read obj k s =
    (case qualifyKey h N of Inl e \<Rightarrow> Inl e | Inr K \<Rightarrow> Inr (getters s K))"
proof -
  from reduce_define_distinct [OF assms(1) [unfolded wrapGetters_def]] assms(2)
  have "map_of G k = Some h" by simp
  with reduce_define_props [OF assms(1) [unfolded wrapGetters_def], of k] show ?thesis
    by (simp add: read_def)
qed

lemma wrapGetters_total:
  "distinct (map fst G) \<Longrightarrow> \<exists>obj. wrapGetters G N = Inr obj"
  unfolding wrapGetters_def by (rule reduce_define_total) simp_all

lemma wrapGetters_distinct:
  "wrapGetters G N = Inr obj \<Longrightarrow> distinct (map fst G)"
  unfolding wrapGetters_def by (rule reduce_define_distinct)

lemma wrapGetters_accessor:
  assumes "wrapGetters G N = Inr obj" and "(k, h) \<in> set G"
  shows "\<exists>g. map_of obj k = Some (Accessor g)"
proof -
  from reduce_define_distinct [OF assms(1) [unfolded wrapGetters_def]] assms(2)
  have "map_of G k = Some h" by simp
  with reduce_define_props [OF assms(1) [unfolded wrapGetters_def], of k] show ?thesis
    by simp
qed

lemma wrapMutations_total:
  "distinct (map fst H) \<Longrightarrow> (\<forall>(k, h) \<in> set H. declared_name h \<noteq> []) \<Longrightarrow>
   \<exists>w. wrapMutations N H = Inr w"
  unfolding wrapMutations_def by (rule reduce_wrapMutation_total) simp_all

lemma wrapMutations_cart:
  "wrapMutations ''cart'' cart_handlers =
     Inr \<lparr>call = store_commit,
          props = [(''addItem'',
            Accessor (mk_deferred \<lparr>call = store_commit, props = []\<rparr> ''cart/addItem''))]\<rparr>"
  by (simp add: cart_handlers_def wrapMutations_def wrapMutation_def qualifyKey_def qualify_def
      defineProperty_def)

lemma cart_entry: "(''addItem'', Handler ''addItem'') \<in> set cart_handlers"
  by (simp add: cart_handlers_def)

lemma accessor_wrapMutations_Some:
  assumes "wrapMutations N H = Inr w" and "accessor w k = Some a"
  shows "\<exists>h. (k, h) \<in> set H \<and>
    a = mk_deferred \<lparr>call = store_commit, props = []\<rparr> (qualify (declared_name h) N)"
proof -
  from assms(1) have r: "reduce (wrapMutation N) H \<lparr>call = store_commit, props = []\<rparr> = Inr w"
    by (simp add: wrapMutations_def)
  from reduce_wrapMutation_props [OF r, of k] assms(2) show ?thesis
    by (auto simp: accessor_def split: option.splits dest: map_of_SomeD)
qed

lemma reduce_wrapMutation_anonymous:
  "distinct (map fst ms) \<Longrightarrow> (k, h) \<in> set ms \<Longrightarrow> declared_name h = [] \<Longrightarrow>
   (\<forall>k \<in> fst ` set ms. \<forall>g. map_of (props acc) k \<noteq> Some (Accessor g)) \<Longrightarrow>
     reduce (wrapMutation ns) ms acc = Inl InvalidHandlerIdentity"
proof (induction ms arbitrary: acc)
  case Nil
  then show ?case by simp
next
  case (Cons m ms)
  obtain key h' where m: "m = (key, h')" by (cases m)
  show ?case
  proof (cases "declared_name h' = []")
    case True
    then show ?thesis by (simp add: m wrapMutation_def qualifyKey_def)
  next
    case False
    let ?d = "mk_deferred acc (qualify (declared_name h') ns)"
    let ?acc = "acc\<lparr>props := AList.update key (Accessor ?d) (props acc)\<rparr>"
    from Cons.prems(4) False have step: "wrapMutation ns acc (key, h') = Inr ?acc"
      by (simp add: m wrapMutation_def qualifyKey_def defineProperty_ok)
    from Cons.prems(2,3) False have mem: "(k, h) \<in> set ms" by (auto simp: m)
    have "\<forall>k \<in> fst ` set ms. \<forall>g. map_of (props ?acc) k \<noteq> Some (Accessor g)"
      using Cons.prems(1,4) by (auto simp: m update_conv')
    from Cons.IH [OF _ mem Cons.prems(3) this] Cons.prems(1) step show ?thesis
      by (simp add: m)
  qed
qed

lemma wrapMutations_anonymous:
  "distinct (map fst H) \<Longrightarrow> (k, h) \<in> set H \<Longrightarrow> declared_name h = [] \<Longrightarrow>
     wrapMutations N H = Inl InvalidHandlerIdentity"
  unfolding wrapMutations_def by (rule reduce_wrapMutation_anonymous) simp_all

lemma assign_accessor:
  "map_of obj k = Some (Accessor g) \<Longrightarrow>
     assign strict obj k v = (if strict then Inl TypeError else Inr obj)"
  by (simp add: assign_def)

lemma qualify_inj: "qualify a N = qualify b N \<longleftrightarrow> a = b"
  by (simp add: qualify_def)

subsection \<open>Commits and the subscription list\<close>

lemma listen_mk_deferred:
  "listen (mk_deferred c K) L s =
     (next_id s,
      s\<lparr>subscribers := subscribers s @
           [(next_id s, \<lambda>(type, payload). if type = K then [(L, payload)] else [])],
        next_id := Suc (next_id s)\<rparr>)"
  by (simp add: mk_deferred_def store_subscribe_def)

lemma calls_of_store_commit:
  "calls_of L (store_commit type payload options s) =
     calls_of L s @
     map snd (filter (\<lambda>(l, p). l = L)
       (concat (map (\<lambda>(i, sub). sub (type, payload)) (subscribers s))))"
  by (simp add: calls_of_def store_commit_def)

lemma unheard:
  "\<forall>(i, sub) \<in> set subs. \<forall>e. L \<notin> fst ` set (sub e) \<Longrightarrow>
     filter (\<lambda>(l, p). l = L) (concat (map (\<lambda>(i, sub). sub e) subs)) = []"
  by (induction subs) (force simp: filter_empty_conv)+

lemma calls_of_dispose: "calls_of L (dispose d s) = calls_of L s"
  by (simp add: calls_of_def dispose_def)

lemma subscribers_store_commit:
  "subscribers (store_commit type payload options s) = subscribers s"
  by (simp add: store_commit_def)

lemma subscribers_dispose:
  "subscribers (dispose d s) = filter (\<lambda>(i, sub). i \<noteq> d) (subscribers s)"
  by (simp add: dispose_def)

lemma calls_of_commit_listening:
  assumes "\<forall>(i, sub) \<in> set (subscribers s). \<forall>e. L \<notin> fst ` set (sub e)"
    and "listen (mk_deferred c K) L s = (d, s1)"
    and "subscribers s' = subscribers s1"
  shows "calls_of L (store_commit type payload options s') =
           calls_of L s' @ (if type = K then [payload] else [])"
proof -
  from assms(2,3) have
    "subscribers s' = subscribers s @
       [(next_id s, \<lambda>(type, payload). if type = K then [(L, payload)] else [])]"
    by (auto simp: listen_mk_deferred)
  with unheard [OF assms(1), of "(type, payload)"] show ?thesis
    by (simp add: calls_of_store_commit)
qed

lemma calls_of_commit_disposed:
  assumes "\<forall>(i, sub) \<in> set (subscribers s). \<forall>e. L \<notin> fst ` set (sub e)"
    and "listen (mk_deferred c K) L s = (d, s1)"
    and "subscribers s' = subscribers (dispose d s1)"
  shows "calls_of L (store_commit type payload options s') = calls_of L s'"
proof -
  from assms(2,3) have "subscribers s' = filter (\<lambda>(i, sub). i \<noteq> next_id s) (subscribers s)"
    by (auto simp: listen_mk_deferred subscribers_dispose)
  with assms(1) have "\<forall>(i, sub) \<in> set (subscribers s'). \<forall>e. L \<notin> fst ` set (sub e)"
    by auto
  from unheard [OF this, of "(type, payload)"] show ?thesis
    by (simp add: calls_of_store_commit)
qed

lemma unheard_off:
  assumes "\<forall>(i, sub) \<in> set subs. \<forall>K2 p. K2 \<noteq> K \<longrightarrow> L \<notin> fst ` set (sub (K2, p))"
    and "type \<noteq> K"
  shows "filter (\<lambda>(l, p). l = L) (concat (map (\<lambda>(i, sub). sub (type, payload)) subs)) = []"
proof -
  have "l \<noteq> L"
    if "(l, q) \<in> set (concat (map (\<lambda>(i, sub). sub (type, payload)) subs))" for l q
  proof -
    from that obtain i sub where m: "(i, sub) \<in> set subs" and "(l, q) \<in> set (sub (type, payload))"
      by auto
    then have "l \<in> fst ` set (sub (type, payload))"
      by force
    moreover from assms m have "L \<notin> fst ` set (sub (type, payload))"
      by blast
    ultimately show ?thesis by blast
  qed
  then have "\<forall>x \<in> set (concat (map (\<lambda>(i, sub). sub (type, payload)) subs)). fst x \<noteq> L"
    by (metis prod.collapse)
  then show ?thesis
    by (simp add: filter_empty_conv case_prod_beta)
qed

lemma off_key_run:
  "\<forall>(i, sub) \<in> set (subscribers s). \<forall>K2 p. K2 \<noteq> K \<longrightarrow> L \<notin> fst ` set (sub (K2, p)) \<Longrightarrow>
   \<forall>sub. Subscribe sub \<in> set ops \<longrightarrow> (\<forall>K2 p. K2 \<noteq> K \<longrightarrow> L \<notin> fst ` set (sub (K2, p))) \<Longrightarrow>
   \<forall>(i, sub) \<in> set (subscribers (run ops s)). \<forall>K2 p. K2 \<noteq> K \<longrightarrow> L \<notin> fst ` set (sub (K2, p))"
proof (induction ops arbitrary: s)
  case Nil
  then show ?case by (simp add: run_def)
next
  case (Cons op ops)
  have "\<forall>(i, sub) \<in> set (subscribers (perform op s)).
          \<forall>K2 p. K2 \<noteq> K \<longrightarrow> L \<notin> fst ` set (sub (K2, p))"
  proof (cases op)
    case (Commit t p opts)
    with Cons.prems(1) show ?thesis by (simp add: store_commit_def)
  next
    case (Subscribe sub)
    with Cons.prems(2) have "\<forall>K2 p. K2 \<noteq> K \<longrightarrow> L \<notin> fst ` set (sub (K2, p))" by simp
    with Cons.prems(1) Subscribe show ?thesis by (auto simp: store_subscribe_def)
  next
    case (Dispose d)
    with Cons.prems(1) show ?thesis by (auto simp: dispose_def)
  qed
  from Cons.IH [OF this] Cons.prems(2) show ?case by (simp add: run_def)
qed

lemma subscribers_listen:
  "listen (mk_deferred c K) L s = (d, s1) \<Longrightarrow>
     d = next_id s \<and>
     subscribers s1 = subscribers s @
       [(d, \<lambda>(type, payload). if type = K then [(L, payload)] else [])]"
  by (auto simp: listen_mk_deferred)

subsection \<open>The wrappers on the example handler maps\<close>

lemma accessor_cart:
  "accessor \<lparr>call = store_commit,
          props = [(''addItem'',
            Accessor (mk_deferred \<lparr>call = store_commit, props = []\<rparr> ''cart/addItem''))]\<rparr>
     ''addItem'' = Some (mk_deferred \<lparr>call = store_commit, props = []\<rparr> ''cart/addItem'')"
  by (simp add: accessor_def)

lemma watched_store_unheard:
  "\<forall>(i, sub) \<in> set (subscribers watched_store). \<forall>e. 7 \<notin> fst ` set (sub e)"
  by (auto simp: watched_store_def)

lemma later_calls_off_key:
  "\<forall>sub. Subscribe sub \<in> set later_calls \<longrightarrow>
     (\<forall>K' p. K' \<noteq> qualify (declared_name (Handler ''addItem'')) ''cart'' \<longrightarrow>
        7 \<notin> fst ` set (sub (K', p)))"
  by (auto simp: later_calls_def qualify_def)

lemma watched_store_off_key:
  "\<forall>(i, sub) \<in> set (subscribers watched_store).
     \<forall>K' p. K' \<noteq> qualify (declared_name (Handler ''addItem'')) ''cart'' \<longrightarrow>
        7 \<notin> fst ` set (sub (K', p))"
  by (auto simp: watched_store_def)

lemma wrapMutations_twin:
  "wrapMutations ''cart'' twin_handlers =
     Inr \<lparr>call = store_commit,
          props =
            [(''first'', Accessor (mk_deferred \<lparr>call = store_commit, props = []\<rparr> ''cart/set'')),
             (''second'', Accessor (mk_deferred
                \<lparr>call = store_commit,
                   props = [(''first'',
                     Accessor (mk_deferred \<lparr>call = store_commit, props = []\<rparr> ''cart/set''))]\<rparr>
                ''cart/set''))]\<rparr>"
  by (simp add: twin_handlers_def wrapMutations_def wrapMutation_def qualifyKey_def qualify_def
      defineProperty_def)

lemma wrapGetters_total_getters:
  "wrapGetters total_getters [] =
     Inr [(''total'', Accessor (\<lambda>s. case qualifyKey (Handler ''total'') [] of
                                      Inl e \<Rightarrow> Inl e | Inr k \<Rightarrow> Inr (getters s k)))]"
  by (simp add: wrapGetters_def total_getters_def defineProperty_def)

lemma total_entry: "(''total'', Handler ''total'') \<in> set total_getters"
  by (simp add: total_getters_def)

section \<open>The claims\<close>

subsection \<open>Wrapped mutation accessors\<close>

text \<open>
  Claim C1. Let the handler map have an entry with identifier \<open>name\<close>: the key of the
  entry and the declared name of its handler, which the specification takes to be the
  same. For every namespace \<open>N\<close>, the committer that \<^verbatim>\<open>wrapMutations\<close> returns has
  an accessor at \<open>name\<close>, and calling it with a payload is one call of
  \<^verbatim>\<open>store.commit\<close> with the key \<open>qualify name N\<close>, that payload and the options
  \<^verbatim>\<open>{ root: true }\<close>: the store receives exactly that one commit.
\<close>

theorem wrapped_mutation_commits_once:
  assumes "wrapMutations N H = Inr w" and "(name, h) \<in> set H" and "declared_name h = name"
  shows "\<exists>a. accessor w name = Some a \<and>
           invoke a payload s = store_commit (qualify name N) payload (Some \<lparr>root = True\<rparr>) s \<and>
           commits (invoke a payload s) =
             commits s @ [(qualify name N, payload, Some \<lparr>root = True\<rparr>)]"
  using accessor_wrapMutations [OF assms(1,2)] assms(3)
  by (simp add: invoke_mk_deferred commits_store_commit)

theorem wrapped_mutation_commits_once_witness:
  "\<exists>w a. (wrapMutations ''cart'' cart_handlers :: error + (nat, nat) committer) = Inr w \<and>
     accessor w ''addItem'' = Some a \<and>
     commits (invoke a 1 empty_store) = [(''cart/addItem'', 1, Some \<lparr>root = True\<rparr>)]"
  using wrapped_mutation_commits_once
    [OF wrapMutations_cart cart_entry, of 1 empty_store]
  by (auto simp: wrapMutations_cart qualify_def empty_store_def)

text \<open>
  Claim C2. Listener round trip. Let \<open>a\<close> be an accessor of the committer and \<open>L\<close> a
  listener that no subscriber of the store invokes yet. After \<open>a.listen(L)\<close>, one call
  \<open>a(payload)\<close> invokes \<open>L\<close> exactly once, with that payload; once the disposer that
  \<open>listen\<close> returned has run, whether before or after that call, a further call of
  \<open>a\<close> does not invoke \<open>L\<close>: its invocations stay the ones before the disposal.
\<close>

theorem listener_round_trip:
  assumes "wrapMutations N H = Inr w" and "accessor w k = Some a"
    and "\<forall>(i, sub) \<in> set (subscribers s). \<forall>e. L \<notin> fst ` set (sub e)"
    and "listen a L s = (disposer, s1)"
  shows "calls_of L (invoke a payload s1) = calls_of L s1 @ [payload] \<and>
         calls_of L (invoke a payload (dispose disposer s1)) = calls_of L s1 \<and>
         calls_of L (dispose disposer (invoke a payload s1)) = calls_of L s1 @ [payload] \<and>
         calls_of L (invoke a payload' (dispose disposer (invoke a payload s1))) =
           calls_of L s1 @ [payload]"
proof -
  from accessor_wrapMutations_Some [OF assms(1,2)] obtain K where
    a: "a = mk_deferred \<lparr>call = store_commit, props = []\<rparr> K"
    by blast
  note l = assms(4) [unfolded a]
  have inv: "invoke a p t = store_commit K p (Some \<lparr>root = True\<rparr>) t" for p t
    by (simp add: a invoke_mk_deferred)
  have 1: "calls_of L (invoke a payload s1) = calls_of L s1 @ [payload]"
    using calls_of_commit_listening [OF assms(3) l refl] by (simp add: inv)
  have 2: "calls_of L (invoke a payload (dispose disposer s1)) = calls_of L s1"
    using calls_of_commit_disposed [OF assms(3) l refl] by (simp add: inv calls_of_dispose)
  have "subscribers (dispose disposer (invoke a payload s1)) = subscribers (dispose disposer s1)"
    by (simp add: inv subscribers_dispose subscribers_store_commit)
  from calls_of_commit_disposed [OF assms(3) l this]
  have 3: "calls_of L (invoke a payload' (dispose disposer (invoke a payload s1))) =
      calls_of L (dispose disposer (invoke a payload s1))"
    by (simp add: inv)
  from 1 2 3 show ?thesis by (simp add: calls_of_dispose)
qed

theorem listener_round_trip_witness:
  "\<exists>(w :: (nat, nat) committer) a d s1.
     wrapMutations ''cart'' cart_handlers = Inr w \<and>
     accessor w ''addItem'' = Some a \<and>
     listen a 7 watched_store = (d, s1) \<and>
     calls_of 7 s1 = [] \<and>
     calls_of 7 (invoke a 5 s1) = [5] \<and>
     calls_of 7 (invoke a 6 (dispose d (invoke a 5 s1))) = [5]"
proof -
  let ?a = "mk_deferred \<lparr>call = store_commit, props = []\<rparr> ''cart/addItem'' :: (nat, nat) deferred"
  obtain d s1 where l: "listen ?a 7 watched_store = (d, s1)"
    by (cases "listen ?a 7 watched_store")
  have c: "calls_of 7 s1 = []"
    using l by (auto simp: listen_mk_deferred calls_of_def watched_store_def)
  from listener_round_trip [OF wrapMutations_cart accessor_cart watched_store_unheard l, of 5 6] c
  have "calls_of 7 (invoke ?a 5 s1) = [5]"
    and "calls_of 7 (invoke ?a 6 (dispose d (invoke ?a 5 s1))) = [5]"
    by simp_all
  with wrapMutations_cart accessor_cart l c show ?thesis
    by blast
qed

text \<open>
  Claim C3. Listener isolation. Let \<open>L\<close> be registered by \<open>listen\<close> on the accessor
  whose qualified key is \<open>K = qualify (declared_name h) N\<close>, and let \<open>K2\<close> be another
  type. The subscriber that this registration adds to the store invokes nothing on an
  event of type \<open>K2\<close>. And after every history of later calls on the same store
  (commits, subscriptions of other listeners or of \<open>L\<close> on \<open>K\<close> again, disposals) a
  commit under \<open>K2\<close> does not invoke \<open>L\<close>, whatever its payload and options. The one
  condition concerns the other subscribers, those of the store before the registration
  and those of the history: none of them is itself a callback that invokes \<open>L\<close> on an
  event of a type other than \<open>K\<close>, which would be a registration of \<open>L\<close> elsewhere.
\<close>

theorem listener_isolation:
  assumes "wrapMutations N H = Inr w" and "(k, h) \<in> set H" and "accessor w k = Some a"
    and "listen a L s = (disposer, s1)"
    and "K2 \<noteq> qualify (declared_name h) N"
  shows "(\<exists>sub. subscribers s1 = subscribers s @ [(disposer, sub)] \<and> sub (K2, payload) = []) \<and>
         ((\<forall>(i, sub) \<in> set (subscribers s).
             \<forall>K' p. K' \<noteq> qualify (declared_name h) N \<longrightarrow> L \<notin> fst ` set (sub (K', p))) \<and>
          (\<forall>sub. Subscribe sub \<in> set ops \<longrightarrow>
             (\<forall>K' p. K' \<noteq> qualify (declared_name h) N \<longrightarrow> L \<notin> fst ` set (sub (K', p)))) \<longrightarrow>
          calls_of L (store_commit K2 payload options (run ops s1)) = calls_of L (run ops s1))"
proof (intro conjI impI)
  let ?K = "qualify (declared_name h) N"
  from accessor_wrapMutations [OF assms(1,2)] assms(3) have
    a: "a = mk_deferred \<lparr>call = store_commit, props = []\<rparr> ?K"
    by simp
  note l = subscribers_listen [OF assms(4) [unfolded a]]
  from l assms(5)
  show "\<exists>sub. subscribers s1 = subscribers s @ [(disposer, sub)] \<and> sub (K2, payload) = []"
    by simp
  assume h: "(\<forall>(i, sub) \<in> set (subscribers s).
             \<forall>K' p. K' \<noteq> ?K \<longrightarrow> L \<notin> fst ` set (sub (K', p))) \<and>
          (\<forall>sub. Subscribe sub \<in> set ops \<longrightarrow>
             (\<forall>K' p. K' \<noteq> ?K \<longrightarrow> L \<notin> fst ` set (sub (K', p))))"
  with l have "\<forall>(i, sub) \<in> set (subscribers s1).
      \<forall>K' p. K' \<noteq> ?K \<longrightarrow> L \<notin> fst ` set (sub (K', p))"
    by auto
  from off_key_run [OF this] h
  have "\<forall>(i, sub) \<in> set (subscribers (run ops s1)).
      \<forall>K' p. K' \<noteq> ?K \<longrightarrow> L \<notin> fst ` set (sub (K', p))"
    by blast
  from unheard_off [OF this assms(5)]
  show "calls_of L (store_commit K2 payload options (run ops s1)) = calls_of L (run ops s1)"
    by (simp add: calls_of_store_commit)
qed

theorem listener_isolation_witness:
  "\<exists>(w :: (nat, nat) committer) a d s1.
     wrapMutations ''cart'' cart_handlers = Inr w \<and>
     accessor w ''addItem'' = Some a \<and>
     listen a 7 watched_store = (d, s1) \<and>
     calls_of 7 (run later_calls s1) = [1] \<and>
     calls_of 7 (store_commit ''cart/removeItem'' 5 (Some \<lparr>root = True\<rparr>) (run later_calls s1)) =
       [1]"
proof -
  let ?a = "mk_deferred \<lparr>call = store_commit, props = []\<rparr> ''cart/addItem'' :: (nat, nat) deferred"
  obtain d s1 where l: "listen ?a 7 watched_store = (d, s1)"
    by (cases "listen ?a 7 watched_store")
  have c: "calls_of 7 (run later_calls s1) = [1]"
    using l
    by (auto simp: listen_mk_deferred calls_of_def watched_store_def run_def later_calls_def
        store_commit_def store_subscribe_def dispose_def)
  have ne: "''cart/removeItem'' \<noteq> qualify (declared_name (Handler ''addItem'')) ''cart''"
    by (simp add: qualify_def)
  from listener_isolation
    [OF wrapMutations_cart cart_entry accessor_cart l ne,
      of 5 later_calls "Some \<lparr>root = True\<rparr>"]
    watched_store_off_key later_calls_off_key c
  have "calls_of 7 (store_commit ''cart/removeItem'' 5 (Some \<lparr>root = True\<rparr>)
      (run later_calls s1)) = [1]"
    by simp
  with wrapMutations_cart accessor_cart l c show ?thesis
    by blast
qed

subsection \<open>Two handlers with one qualified key\<close>

text \<open>
  Claim C4 says that \<^verbatim>\<open>wrapMutations\<close> raises \<^verbatim>\<open>DuplicateKey\<close> when two handlers
  qualify to the same key. The source has no such check: on \<open>twin_handlers\<close>, whose
  two handlers both qualify to \<^verbatim>\<open>cart/set\<close>, the wrap call returns the committer, and
  each of the two accessors commits under \<^verbatim>\<open>cart/set\<close>.
\<close>

theorem duplicate_key_counterexample:
  "qualifyKey (Handler ''set'') ''cart'' = Inr ''cart/set'' \<and>
   (case (wrapMutations ''cart'' twin_handlers :: error + (nat, nat) committer) of
      Inl e \<Rightarrow> False
    | Inr w \<Rightarrow>
        (case (accessor w ''first'', accessor w ''second'') of
           (Some a, Some b) \<Rightarrow>
             commits (invoke a 1 empty_store) = [(''cart/set'', 1, Some \<lparr>root = True\<rparr>)] \<and>
             commits (invoke b 2 empty_store) = [(''cart/set'', 2, Some \<lparr>root = True\<rparr>)]
         | _ \<Rightarrow> False))"
  by (simp add: wrapMutations_twin qualifyKey_def qualify_def accessor_def mk_deferred_def
      store_commit_def empty_store_def)

text \<open>
  Claim C4, as amended. For every namespace and every handler map with two handlers
  whose identifiers qualify to the same key, \<^verbatim>\<open>wrapMutations\<close> does not reject the
  collision. When every handler of the map has a derivable identifier, the wrap call
  raises nothing: it returns the committer with an accessor under each of the two map
  keys, and both accessors commit under the one qualified key. When some handler of the
  map has none, the wrap call fails with \<^verbatim>\<open>InvalidHandlerIdentity\<close>, as it does on any
  map (claim C8).
\<close>

theorem same_key_handlers_are_wrapped:
  assumes "distinct (map fst H)"
    and "(k1, h1) \<in> set H" and "(k2, h2) \<in> set H" and "k1 \<noteq> k2"
    and "qualifyKey h1 N = qualifyKey h2 N"
  shows "((\<forall>(k, h) \<in> set H. declared_name h \<noteq> []) \<longrightarrow>
          (\<exists>(w :: ('p, 'l) committer) a1 a2.
             wrapMutations N H = Inr w \<and>
             accessor w k1 = Some a1 \<and> accessor w k2 = Some a2 \<and>
             (\<forall>payload s.
                invoke a1 payload s =
                  store_commit (qualify (declared_name h1) N) payload (Some \<lparr>root = True\<rparr>) s \<and>
                invoke a2 payload s =
                  store_commit (qualify (declared_name h1) N) payload (Some \<lparr>root = True\<rparr>) s))) \<and>
         ((\<exists>(k, h) \<in> set H. declared_name h = []) \<longrightarrow>
          (wrapMutations N H :: error + ('p, 'l) committer) = Inl InvalidHandlerIdentity)"
proof (intro conjI impI)
  assume named: "\<forall>(k, h) \<in> set H. declared_name h \<noteq> []"
  from wrapMutations_total [OF assms(1) named] obtain w :: "('p, 'l) committer"
    where w: "wrapMutations N H = Inr w"
    by blast
  from named assms(2,3) have "declared_name h1 \<noteq> []" and "declared_name h2 \<noteq> []"
    by auto
  with assms(5) have K: "qualify (declared_name h2) N = qualify (declared_name h1) N"
    by (simp add: qualifyKey_def)
  from accessor_wrapMutations [OF w assms(2)] accessor_wrapMutations [OF w assms(3)] w
  show "\<exists>(w :: ('p, 'l) committer) a1 a2.
             wrapMutations N H = Inr w \<and>
             accessor w k1 = Some a1 \<and> accessor w k2 = Some a2 \<and>
             (\<forall>payload s.
                invoke a1 payload s =
                  store_commit (qualify (declared_name h1) N) payload (Some \<lparr>root = True\<rparr>) s \<and>
                invoke a2 payload s =
                  store_commit (qualify (declared_name h1) N) payload (Some \<lparr>root = True\<rparr>) s)"
    by (simp add: K invoke_mk_deferred)
next
  assume "\<exists>(k, h) \<in> set H. declared_name h = []"
  then obtain k h where "(k, h) \<in> set H" and "declared_name h = []"
    by auto
  from wrapMutations_anonymous [OF assms(1) this]
  show "(wrapMutations N H :: error + ('p, 'l) committer) = Inl InvalidHandlerIdentity" .
qed

theorem same_key_handlers_are_wrapped_witness:
  "(\<exists>(w :: (nat, nat) committer) a1 a2.
     wrapMutations ''cart'' twin_handlers = Inr w \<and>
     accessor w ''first'' = Some a1 \<and> accessor w ''second'' = Some a2 \<and>
     invoke a1 1 empty_store = store_commit ''cart/set'' 1 (Some \<lparr>root = True\<rparr>) empty_store \<and>
     invoke a2 1 empty_store = store_commit ''cart/set'' 1 (Some \<lparr>root = True\<rparr>) empty_store) \<and>
   (wrapMutations ''cart'' (twin_handlers @ anonymous_handlers) :: error + (nat, nat) committer) =
     Inl InvalidHandlerIdentity"
proof -
  have t: "distinct (map fst twin_handlers)"
    "(''first'', Handler ''set'') \<in> set twin_handlers"
    "(''second'', Handler ''set'') \<in> set twin_handlers"
    "''first'' \<noteq> ''second''"
    "qualifyKey (Handler ''set'') ''cart'' = qualifyKey (Handler ''set'') ''cart''"
    and named: "\<forall>(k, h) \<in> set twin_handlers. declared_name h \<noteq> []"
    by (simp_all add: twin_handlers_def)
  have u: "distinct (map fst (twin_handlers @ anonymous_handlers))"
    "(''first'', Handler ''set'') \<in> set (twin_handlers @ anonymous_handlers)"
    "(''second'', Handler ''set'') \<in> set (twin_handlers @ anonymous_handlers)"
    and anon: "\<exists>(k, h) \<in> set (twin_handlers @ anonymous_handlers). declared_name h = []"
    by (simp_all add: twin_handlers_def anonymous_handlers_def)
  from same_key_handlers_are_wrapped [OF t, where ?'p = nat and ?'l = nat] named
  obtain w :: "(nat, nat) committer" and a1 a2 where
    "wrapMutations ''cart'' twin_handlers = Inr w"
    "accessor w ''first'' = Some a1" "accessor w ''second'' = Some a2"
    "\<forall>payload s. invoke a1 payload s =
        store_commit (qualify (declared_name (Handler ''set'')) ''cart'') payload
          (Some \<lparr>root = True\<rparr>) s \<and>
      invoke a2 payload s =
        store_commit (qualify (declared_name (Handler ''set'')) ''cart'') payload
          (Some \<lparr>root = True\<rparr>) s"
    by blast
  then have 1: "\<exists>(w :: (nat, nat) committer) a1 a2.
     wrapMutations ''cart'' twin_handlers = Inr w \<and>
     accessor w ''first'' = Some a1 \<and> accessor w ''second'' = Some a2 \<and>
     invoke a1 1 empty_store = store_commit ''cart/set'' 1 (Some \<lparr>root = True\<rparr>) empty_store \<and>
     invoke a2 1 empty_store = store_commit ''cart/set'' 1 (Some \<lparr>root = True\<rparr>) empty_store"
    by (auto simp: qualify_def)
  from same_key_handlers_are_wrapped [OF u t(4,5), where ?'p = nat and ?'l = nat] anon
  have "(wrapMutations ''cart'' (twin_handlers @ anonymous_handlers)
      :: error + (nat, nat) committer) = Inl InvalidHandlerIdentity"
    by blast
  with 1 show ?thesis by blast
qed

subsection \<open>Key qualification\<close>

text \<open>
  Claim C5. For every identifier and namespace, qualifying with the empty namespace gives
  the identifier, and qualifying with a non-empty namespace gives the namespace, a slash
  and the identifier. Qualification is a function of its two arguments alone; on a
  handler that has a name, \<^verbatim>\<open>qualifyKey\<close> returns the qualification of that name.
\<close>

theorem qualify_equations:
  "qualify identifier [] = identifier \<and>
   (namespace \<noteq> [] \<longrightarrow> qualify identifier namespace = namespace @ ''/'' @ identifier) \<and>
   (declared_name h \<noteq> [] \<longrightarrow>
      qualifyKey h namespace = Inr (qualify (declared_name h) namespace))"
  by (simp add: qualify_def qualifyKey_def)

theorem qualify_equations_witness:
  "qualify ''addItem'' [] = ''addItem'' \<and>
   qualify ''addItem'' ''cart'' = ''cart/addItem'' \<and>
   qualifyKey (Handler ''addItem'') ''cart'' = Inr ''cart/addItem''"
  using qualify_equations [of "''addItem''" "''cart''" "Handler ''addItem''"]
  by simp

subsection \<open>Wrapped getters\<close>

text \<open>
  Claim C6. Live reads. For an entry with identifier \<open>name\<close> of the handler map, every
  read of the property \<open>name\<close> of the object that \<^verbatim>\<open>wrapGetters\<close> returns is the
  value that the registry of the store holds under \<open>qualify name N\<close> in the state in
  which the read happens: after the registry has changed, the same object reads the new
  value, and a key that the registry does not have reads as \<^verbatim>\<open>undefined\<close> without
  raising.
\<close>

theorem getter_reads_are_live:
  assumes "wrapGetters G N = Inr obj" and "(name, h) \<in> set G"
    and "declared_name h = name" and "name \<noteq> []"
  shows "read obj name s = Inr (getters s (qualify name N)) \<and>
         read obj name (s\<lparr>getters := (getters s)(qualify name N \<mapsto> V2)\<rparr>) = Inr (Some V2) \<and>
         (getters s (qualify name N) = None \<longrightarrow> read obj name s = Inr None)"
  using assms(3,4) by (simp add: read_wrapGetters [OF assms(1,2)] qualifyKey_def)

theorem getter_reads_are_live_witness:
  "\<exists>obj. (wrapGetters total_getters [] :: error + (nat, nat) wrapped_getters) = Inr obj \<and>
     read obj ''total'' empty_store = Inr None \<and>
     read obj ''total'' (empty_store\<lparr>getters := [''total'' \<mapsto> 1]\<rparr>) = Inr (Some 1) \<and>
     read obj ''total'' (empty_store\<lparr>getters := [''total'' \<mapsto> 2]\<rparr>) = Inr (Some 2)"
proof -
  note t = getter_reads_are_live [OF wrapGetters_total_getters total_entry, simplified]
  have e: "getters empty_store = Map.empty" by (simp add: empty_store_def)
  from t [of empty_store] t [of "empty_store\<lparr>getters := [''total'' \<mapsto> 1]\<rparr>"]
    t [of "empty_store\<lparr>getters := [''total'' \<mapsto> 2]\<rparr>"]
  show ?thesis
    by (simp add: wrapGetters_total_getters e qualify_def)
qed

text \<open>
  Claim C7 says that every write to a property of the wrapped getters fails. The property
  has a getter and no setter, and what an assignment to it does is the runtime's choice:
  in code that is not in strict mode the assignment does nothing and raises nothing.
\<close>

theorem write_to_getter_counterexample:
  "case (wrapGetters total_getters [] :: error + (nat, nat) wrapped_getters) of
     Inl e \<Rightarrow> False
   | Inr obj \<Rightarrow> assign False obj ''total'' 5 = Inr obj"
  by (simp add: wrapGetters_total_getters assign_def)

text \<open>
  Claim C7, as amended. For every property of the object returned by \<^verbatim>\<open>wrapGetters\<close>,
  an assignment in strict mode fails with the \<^verbatim>\<open>TypeError\<close> of the runtime (the
  \<^verbatim>\<open>ReadOnlyPropertyError\<close> of the specification), and an assignment outside strict
  mode leaves the object as it was.
\<close>

theorem write_to_getter:
  assumes "wrapGetters G N = Inr obj" and "(k, h) \<in> set G"
  shows "assign True obj k v = Inl TypeError \<and> assign False obj k v = Inr obj"
  using wrapGetters_accessor [OF assms] by (auto simp: assign_accessor)

theorem write_to_getter_witness:
  "\<exists>obj. (wrapGetters total_getters [] :: error + (nat, nat) wrapped_getters) = Inr obj \<and>
     assign True obj ''total'' 5 = Inl TypeError \<and> assign False obj ''total'' 5 = Inr obj"
  using write_to_getter [OF wrapGetters_total_getters total_entry, of 5]
  by (simp add: wrapGetters_total_getters)

subsection \<open>Handlers without a name\<close>

text \<open>
  Claim C8 says that both wrap calls fail on a handler for which no identifier can be
  derived. \<^verbatim>\<open>wrapGetters\<close> calls \<^verbatim>\<open>qualifyKey\<close> inside the getter it installs, so
  the wrap call returns the object and the failure comes with the read of the property.
\<close>

theorem anonymous_getter_counterexample:
  "case (wrapGetters anonymous_handlers ''cart'' :: error + (nat, nat) wrapped_getters) of
     Inl e \<Rightarrow> False
   | Inr obj \<Rightarrow> read obj ''total'' empty_store = Inl InvalidHandlerIdentity"
  by (simp add: wrapGetters_def anonymous_handlers_def defineProperty_def read_def qualifyKey_def)

text \<open>
  Claim C8, as amended. For a handler map with a handler for which no identifier can be
  derived, \<^verbatim>\<open>wrapMutations\<close> fails with \<^verbatim>\<open>InvalidHandlerIdentity\<close> inside the wrap
  call; \<^verbatim>\<open>wrapGetters\<close> returns the object, and every read of the property of that
  handler fails with \<^verbatim>\<open>InvalidHandlerIdentity\<close>.
\<close>

theorem anonymous_handler:
  assumes "distinct (map fst H)" and "(k, h) \<in> set H" and "declared_name h = []"
  shows "wrapMutations N H = Inl InvalidHandlerIdentity \<and>
         (\<exists>obj :: ('p, 'l) wrapped_getters.
            wrapGetters H N = Inr obj \<and> (\<forall>s. read obj k s = Inl InvalidHandlerIdentity))"
proof -
  from wrapGetters_total [OF assms(1)] obtain obj :: "('p, 'l) wrapped_getters"
    where obj: "wrapGetters H N = Inr obj"
    by blast
  have "read obj k s = Inl InvalidHandlerIdentity" for s
    using assms(3) by (simp add: read_wrapGetters [OF obj assms(2)] qualifyKey_def)
  with obj wrapMutations_anonymous [OF assms] show ?thesis by blast
qed

theorem anonymous_handler_witness:
  "(wrapMutations ''cart'' anonymous_handlers :: error + (nat, nat) committer) =
     Inl InvalidHandlerIdentity \<and>
   (\<exists>obj. (wrapGetters anonymous_handlers ''cart'' :: error + (nat, nat) wrapped_getters) =
            Inr obj \<and> read obj ''total'' empty_store = Inl InvalidHandlerIdentity)"
proof -
  have "distinct (map fst anonymous_handlers)"
    and "(''total'', Handler []) \<in> set anonymous_handlers"
    and "declared_name (Handler []) = []"
    by (simp_all add: anonymous_handlers_def)
  from anonymous_handler [OF this, of "''cart''"] show ?thesis
    by auto
qed

subsection \<open>The committer\<close>

text \<open>
  Claim C9. The object that \<^verbatim>\<open>wrapMutations\<close> returns is callable: invoking it with
  a type, a payload and options is \<^verbatim>\<open>store.commit\<close> with exactly these arguments, one
  commit received by the store. Its accessors are those of the keys of the handler map,
  one for each entry.
\<close>

theorem committer_passthrough:
  assumes "wrapMutations N H = Inr w"
  shows "call w type payload options s = store_commit type payload options s \<and>
         commits (call w type payload options s) = commits s @ [(type, payload, options)] \<and>
         dom (accessor w) = fst ` set H"
  using assms
  by (simp add: wrapMutations_call accessor_wrapMutations_dom commits_store_commit)

theorem committer_passthrough_witness:
  "\<exists>w. (wrapMutations ''cart'' cart_handlers :: error + (nat, nat) committer) = Inr w \<and>
     commits (call w ''reset'' 0 None empty_store) = [(''reset'', 0, None)] \<and>
     dom (accessor w) = {''addItem''}"
proof -
  have "fst ` set cart_handlers = {''addItem''}"
    by (simp add: cart_handlers_def)
  with committer_passthrough [OF wrapMutations_cart, of "''reset''" 0 None empty_store]
  show ?thesis
    by (simp add: wrapMutations_cart empty_store_def)
qed

text \<open>
  Claim C10. For every entry \<open>(k, h)\<close> of the handler map, the property is installed
  under the key \<open>k\<close> of the entry, while the commit of \<^verbatim>\<open>wrapMutations\<close> and the
  lookup of \<^verbatim>\<open>wrapGetters\<close> use the qualification of the declared name of \<open>h\<close>; when
  \<open>k\<close> is not that name, this is another key than the qualification of \<open>k\<close>.
\<close>

theorem property_name_and_dispatch_key:
  assumes "(k, h) \<in> set H"
  shows "(wrapMutations N H = Inr w \<longrightarrow>
            (\<exists>a. accessor w k = Some a \<and>
               invoke a payload s =
                 store_commit (qualify (declared_name h) N) payload (Some \<lparr>root = True\<rparr>) s)) \<and>
         (wrapGetters H N = Inr obj \<and> declared_name h \<noteq> [] \<longrightarrow>
            read obj k s = Inr (getters s (qualify (declared_name h) N))) \<and>
         (k \<noteq> declared_name h \<longrightarrow> qualify (declared_name h) N \<noteq> qualify k N)"
proof (intro conjI impI)
  assume "wrapMutations N H = Inr w"
  from accessor_wrapMutations [OF this assms]
  show "\<exists>a. accessor w k = Some a \<and>
    invoke a payload s =
      store_commit (qualify (declared_name h) N) payload (Some \<lparr>root = True\<rparr>) s"
    by (simp add: invoke_mk_deferred)
next
  assume "wrapGetters H N = Inr obj \<and> declared_name h \<noteq> []"
  then have "wrapGetters H N = Inr obj" and "declared_name h \<noteq> []"
    by simp_all
  from read_wrapGetters [OF this(1) assms, of s] this(2)
  show "read obj k s = Inr (getters s (qualify (declared_name h) N))"
    by (simp add: qualifyKey_def)
next
  assume "k \<noteq> declared_name h"
  then show "qualify (declared_name h) N \<noteq> qualify k N"
    by (simp add: qualify_inj)
qed

theorem property_name_and_dispatch_key_witness:
  "\<exists>(w :: (nat, nat) committer) a (obj :: (nat, nat) wrapped_getters).
     wrapMutations ''cart'' renamed_handlers = Inr w \<and>
     accessor w ''add'' = Some a \<and>
     commits (invoke a 1 empty_store) = [(''cart/addItem'', 1, Some \<lparr>root = True\<rparr>)] \<and>
     wrapGetters renamed_handlers ''cart'' = Inr obj \<and>
     read obj ''add'' (empty_store\<lparr>getters := [''cart/addItem'' \<mapsto> 3, ''cart/add'' \<mapsto> 4]\<rparr>) =
       Inr (Some 3) \<and>
     qualify ''addItem'' ''cart'' \<noteq> qualify ''add'' ''cart''"
proof -
  let ?s = "empty_store\<lparr>getters := [''cart/addItem'' \<mapsto> 3, ''cart/add'' \<mapsto> 4]\<rparr>"
  have mem: "(''add'', Handler ''addItem'') \<in> set renamed_handlers"
    by (simp add: renamed_handlers_def)
  have "distinct (map fst renamed_handlers)"
    and named: "\<forall>(k, h) \<in> set renamed_handlers. declared_name h \<noteq> []"
    by (simp_all add: renamed_handlers_def)
  from wrapMutations_total [OF this] wrapGetters_total [OF this(1)]
  obtain w :: "(nat, nat) committer" and obj :: "(nat, nat) wrapped_getters" where
    w: "wrapMutations ''cart'' renamed_handlers = Inr w" and
    obj: "wrapGetters renamed_handlers ''cart'' = Inr obj"
    by blast
  from property_name_and_dispatch_key [OF mem, of "''cart''" w 1 empty_store obj] w
  obtain a where a: "accessor w ''add'' = Some a"
    "invoke a 1 empty_store = store_commit ''cart/addItem'' 1 (Some \<lparr>root = True\<rparr>) empty_store"
    by (auto simp: qualify_def)
  from property_name_and_dispatch_key [OF mem, of "''cart''" w 1 ?s obj] obj
  have r: "read obj ''add'' ?s = Inr (Some 3)"
    and ne: "qualify ''addItem'' ''cart'' \<noteq> qualify ''add'' ''cart''"
    by (simp_all add: qualify_def)
  have "commits (invoke a 1 empty_store) = [(''cart/addItem'', 1, Some \<lparr>root = True\<rparr>)]"
    unfolding a(2) by (simp add: commits_store_commit empty_store_def)
  with w obj a(1) r ne show ?thesis
    by blast
qed

end
